theory Spec2Isabelle
  imports Complex_Main "HOL-Library.Word" "HOL-Library.Log_Nat"
begin

section \<open>Floating-point arithmetic of the conversion\<close>

text \<open>
  \<^verbatim>\<open>hsv_to_grb\<close> computes in C \<^verbatim>\<open>float\<close> and, through \<^verbatim>\<open>fabs\<close> and \<^verbatim>\<open>fmod\<close> of
  \<^verbatim>\<open>math.h\<close>, in \<^verbatim>\<open>double\<close>. The model takes both as IEEE 754 binary32 and binary64 with
  round-to-nearest, ties-to-even, every operation rounded once to the type of its
  operands (no excess precision, no fused multiply-add). A finite floating-point value is
  the rational number it denotes; an operation is the exact rational operation followed by
  the rounding of its type. The arguments are a 16-bit hue and two bytes, so every
  intermediate value is below \<open>2 ^ 11\<close> in magnitude and no operation overflows; the sign
  of a zero never reaches the result, since the last step truncates to an integer.
\<close>

definition pow2 :: "int \<Rightarrow> rat" where
  "pow2 e = (if 0 \<le> e then 2 ^ nat e else 1 / 2 ^ nat (- e))"

text \<open>The binary exponent of a non-zero value: \<open>pow2 (ilog2 x) \<le> \<bar>x\<bar> < pow2 (ilog2 x + 1)\<close>.\<close>

definition ilog2 :: "rat \<Rightarrow> int" where
  "ilog2 x = (if 1 \<le> \<bar>x\<bar> then bitlen \<lfloor>\<bar>x\<bar>\<rfloor> - 1 else - bitlen (\<lceil>1 / \<bar>x\<bar>\<rceil> - 1))"

text \<open>The nearest integer, a tie going to the even one.\<close>

definition rne :: "rat \<Rightarrow> int" where
  "rne q = (let n = \<lfloor>q\<rfloor>; d = q - of_int n in
     if d < 1 / 2 then n else if 1 / 2 < d then n + 1 else if even n then n else n + 1)"

text \<open>
  Rounding to a format of precision \<open>p\<close> bits and least normal exponent \<open>emin\<close>: the
  spacing of the format around \<open>x\<close> is \<open>pow2 (e - p + 1)\<close>, where \<open>e\<close> is the exponent of
  \<open>x\<close>, held at \<open>emin\<close> in the subnormal range.
\<close>

definition round_float :: "nat \<Rightarrow> int \<Rightarrow> rat \<Rightarrow> rat" where
  "round_float p emin x = (if x = 0 then 0 else
     let e = max (ilog2 x) emin; u = pow2 (e - int p + 1) in of_int (rne (x / u)) * u)"

definition fl32 :: "rat \<Rightarrow> rat" where
  "fl32 = round_float 24 (- 126)"

definition fl64 :: "rat \<Rightarrow> rat" where
  "fl64 = round_float 53 (- 1022)"

text \<open>Truncation towards zero, as C converts a floating value to an integer type.\<close>

definition trunc :: "rat \<Rightarrow> int" where
  "trunc x = (if 0 \<le> x then \<lfloor>x\<rfloor> else \<lceil>x\<rceil>)"

text \<open>
  \<^verbatim>\<open>fmod(x, y)\<close> of \<^verbatim>\<open>math.h\<close>, for \<open>y \<noteq> 0\<close>: \<open>x - n * y\<close> with \<open>n\<close> the quotient truncated
  towards zero; the result is exact. The only call passes the literal \<open>2\<close> for \<open>y\<close>.
\<close>

definition fmod :: "rat \<Rightarrow> rat \<Rightarrow> rat" where
  "fmod x y = x - of_int (trunc (x / y)) * y"

text \<open>
  The assignment of a \<^verbatim>\<open>float\<close> to a \<^verbatim>\<open>uint8_t\<close>: the value is truncated towards zero,
  and the behaviour is undefined (\<open>None\<close>) when the truncated value is no \<^verbatim>\<open>uint8_t\<close>.
\<close>

definition to_uint8 :: "rat \<Rightarrow> 8 word option" where
  "to_uint8 x = (let n = trunc x in if 0 \<le> n \<and> n \<le> 255 then Some (word_of_int n) else None)"


section \<open>The conversion \<^verbatim>\<open>hsv_to_grb\<close>\<close>

text \<open>
  The chain of comparisons of \<^verbatim>\<open>hsv_to_grb\<close> (esp32s3_onboard_LED.c, lines 85 to 97),
  which gives \<open>(r, g, b)\<close> from the normalised hue, the chroma \<open>C\<close> and the secondary
  value \<open>X\<close>.
\<close>

definition sector_rgb :: "16 word \<Rightarrow> rat \<Rightarrow> rat \<Rightarrow> rat \<times> rat \<times> rat" where
  "sector_rgb h C X =
    (if h < 60 then (C, X, 0)
     else if h < 120 then (X, C, 0)
     else if h < 180 then (0, C, X)
     else if h < 240 then (0, X, C)
     else if h < 300 then (X, 0, C)
     else (C, 0, X))"

text \<open>
  \<^verbatim>\<open>hsv_to_grb\<close> of esp32s3_onboard_LED.c. The three bytes the function stores through
  its pointer argument are returned as the list \<open>[grb[0], grb[1], grb[2]]\<close>. In
  \<^verbatim>\<open>h / 60.0f\<close> the division is a \<^verbatim>\<open>float\<close> one; \<^verbatim>\<open>fmod\<close>, the subtractions around
  \<^verbatim>\<open>fabs\<close> and the product with \<open>C\<close> are \<^verbatim>\<open>double\<close> operations, and the initialisation of
  \<open>X\<close> rounds to \<^verbatim>\<open>float\<close>.
\<close>

definition hsv_to_grb :: "16 word \<Rightarrow> 8 word \<Rightarrow> 8 word \<Rightarrow> 8 word list option" where
  "hsv_to_grb h0 s v =
    (let h = h0 mod 360;
         S = fl32 (of_int (uint s) / 100);
         V = fl32 (of_int (uint v) / 100);
         C = fl32 (V * S);
         X = fl32 (fl64 (C * fl64 (1 - \<bar>fl64 (fmod (fl32 (of_int (uint h) / 60)) 2 - 1)\<bar>)));
         m = fl32 (V - C);
         (r, g, b) = sector_rgb h C X
     in case (to_uint8 (fl32 (fl32 (g + m) * 255)),
              to_uint8 (fl32 (fl32 (r + m) * 255)),
              to_uint8 (fl32 (fl32 (b + m) * 255))) of
          (Some g8, Some r8, Some b8) \<Rightarrow> Some [g8, r8, b8]
        | _ \<Rightarrow> None)"


text \<open>
  The conversion as the specification words it (section 4.1): the hue modulo 360, the
  chroma \<open>C = V \<cdot> S\<close>, the secondary value \<open>X = C \<cdot> (1 - |((H / 60) mod 2) - 1|)\<close>, the
  offset \<open>m = V - C\<close>, the triple of the 60-degree sector \<open>H\<close> falls into, and each
  channel plus \<open>m\<close>, scaled by 255 and truncated to 8 bits. The channels are kept in the
  conventional order red, green, blue, in the arithmetic of the implementation.
\<close>

record rgb =
  red :: "8 word"
  green :: "8 word"
  blue :: "8 word"

definition channel_byte :: "rat \<Rightarrow> rat \<Rightarrow> 8 word option" where
  "channel_byte c m = to_uint8 (fl32 (fl32 (c + m) * 255))"

definition raw_rgb :: "16 word \<Rightarrow> 8 word \<Rightarrow> 8 word \<Rightarrow> rgb option" where
  "raw_rgb h s v =
    (let H = unat h mod 360;
         S = fl32 (of_nat (unat s) / 100);
         V = fl32 (of_nat (unat v) / 100);
         C = fl32 (V * S);
         X = fl32 (fl64 (C * fl64 (1 - \<bar>fl64 (fmod (fl32 (of_nat H / 60)) 2 - 1)\<bar>)));
         m = fl32 (V - C);
         (r, g, b) = [(C, X, 0), (X, C, 0), (0, C, X), (0, X, C), (X, 0, C), (C, 0, X)] ! (H div 60)
     in case channel_byte r m of None \<Rightarrow> None
        | Some r8 \<Rightarrow>
            (case channel_byte g m of None \<Rightarrow> None
             | Some g8 \<Rightarrow>
                 (case channel_byte b m of None \<Rightarrow> None
                  | Some b8 \<Rightarrow> Some \<lparr>red = r8, green = g8, blue = b8\<rparr>)))"


section \<open>The LED controller\<close>

type_synonym esp_err_t = "32 word"
type_synonym handle = "32 word"

definition ESP_OK :: esp_err_t where
  "ESP_OK = 0"

definition HUE_STEP :: int where
  "HUE_STEP = 2"

record led_controller_t =
  channel :: handle
  encoder :: handle
  grb_data :: "8 word list"
  current_hue :: "16 word"

text \<open>
  The RMT driver of ESP-IDF is outside the repository. Its three set-up calls are
  parameters: the error code each returns and the handle it stores. \<^verbatim>\<open>rmt_transmit\<close> is a
  parameter of each step: a function of the channel, the encoder, the payload, its size
  and the loop count of the transmit configuration.
\<close>

record rmt_driver =
  rmt_new_tx_channel :: "esp_err_t \<times> handle"
  rmt_new_led_strip_encoder :: "esp_err_t \<times> handle"
  rmt_enable :: "handle \<Rightarrow> esp_err_t"

type_synonym rmt_transmit_t = "handle \<Rightarrow> handle \<Rightarrow> 8 word list \<Rightarrow> nat \<Rightarrow> int \<Rightarrow> esp_err_t"

datatype fault = Abort esp_err_t | Undefined_conversion

datatype log_line =
  Starting_Rainbow_Demo
  | Hue_GRB "16 word" "8 word" "8 word" "8 word"

text \<open>
  Modelled from the spec: the macro \<^verbatim>\<open>ESP_ERROR_CHECK\<close> of ESP-IDF, which the
  repository does not contain. Section 7 of the specification: a failed peripheral call is fatal, the program
  aborts and the error propagates.
\<close>

definition ESP_ERROR_CHECK :: "esp_err_t \<Rightarrow> fault + unit" where
  "ESP_ERROR_CHECK rc = (if rc = ESP_OK then Inr () else Inl (Abort rc))"

text \<open>
  Modelled from the spec: the macro \<^verbatim>\<open>ESP_LOGI\<close> of ESP-IDF, which the repository does
  not contain. Section 6 of the specification: the observability sink receives the record; here it is
  appended to the lines written so far.
\<close>

definition ESP_LOGI :: "log_line \<Rightarrow> log_line list \<Rightarrow> log_line list" where
  "ESP_LOGI l out = out @ [l]"

text \<open>
  \<^verbatim>\<open>initialize_led_controller\<close>: the controller starts as \<^verbatim>\<open>{0}\<close>; each of the three
  driver calls is checked, and stores its handle.
\<close>

definition initialize_led_controller :: "rmt_driver \<Rightarrow> fault + led_controller_t" where
  "initialize_led_controller drv =
    (let controller = \<lparr>channel = 0, encoder = 0, grb_data = [0, 0, 0], current_hue = 0\<rparr> in
     case ESP_ERROR_CHECK (fst (rmt_new_tx_channel drv)) of Inl e \<Rightarrow> Inl e
     | Inr _ \<Rightarrow>
         (let controller = controller\<lparr>channel := snd (rmt_new_tx_channel drv)\<rparr> in
          case ESP_ERROR_CHECK (fst (rmt_new_led_strip_encoder drv)) of Inl e \<Rightarrow> Inl e
          | Inr _ \<Rightarrow>
              (let controller = controller\<lparr>encoder := snd (rmt_new_led_strip_encoder drv)\<rparr> in
               case ESP_ERROR_CHECK (rmt_enable drv (channel controller)) of Inl e \<Rightarrow> Inl e
               | Inr _ \<Rightarrow> Inr controller)))"

text \<open>
  The hue update of line 171, \<^verbatim>\<open>(controller->current_hue + HUE_STEP) % 360\<close>: the
  \<^verbatim>\<open>uint16_t\<close> is promoted to \<^verbatim>\<open>int\<close>, so the sum does not wrap, and the remainder is
  stored back into the \<^verbatim>\<open>uint16_t\<close>.
\<close>

definition next_hue :: "16 word \<Rightarrow> 16 word" where
  "next_hue h = word_of_int ((uint h + HUE_STEP) mod 360)"

text \<open>
  \<^verbatim>\<open>update_led_color\<close>, one step of the animation. The result is the outcome of the
  step, the controller and the lines logged when the step ends: on \<open>Inl\<close> the program
  has stopped inside the step, and the controller and the log are those at that moment.
\<close>

definition update_led_color ::
  "rmt_transmit_t \<Rightarrow> led_controller_t \<Rightarrow> log_line list \<Rightarrow>
     (fault + unit) \<times> led_controller_t \<times> log_line list" where
  "update_led_color rmt_transmit controller out =
    (case hsv_to_grb (current_hue controller) 100 100 of
       None \<Rightarrow> (Inl Undefined_conversion, controller, out)
     | Some grb \<Rightarrow>
         (let controller = controller\<lparr>grb_data := grb\<rparr> in
          case ESP_ERROR_CHECK
                 (rmt_transmit (channel controller) (encoder controller)
                    (grb_data controller) (length (grb_data controller)) 0) of
            Inl e \<Rightarrow> (Inl e, controller, out)
          | Inr _ \<Rightarrow>
              (let out = (if uint (current_hue controller) mod 10 = 0
                          then ESP_LOGI (Hue_GRB (current_hue controller)
                                 (grb_data controller ! 0) (grb_data controller ! 1)
                                 (grb_data controller ! 2)) out
                          else out)
               in (Inr (), controller\<lparr>current_hue := next_hue (current_hue controller)\<rparr>, out))))"

text \<open>
  The \<^verbatim>\<open>while (1)\<close> loop of \<^verbatim>\<open>app_main\<close>, for as many iterations as the list gives
  behaviours of \<^verbatim>\<open>rmt_transmit\<close>, one for each call. The loop has no exit; a failed
  step stops the program. \<^verbatim>\<open>vTaskDelay\<close> changes nothing of the state.
\<close>

fun app_loop ::
  "rmt_transmit_t list \<Rightarrow> led_controller_t \<Rightarrow> log_line list \<Rightarrow>
     (fault + unit) \<times> led_controller_t \<times> log_line list" where
  "app_loop [] controller out = (Inr (), controller, out)"
| "app_loop (tx # txs) controller out =
    (case update_led_color tx controller out of
       (Inl e, controller', out') \<Rightarrow> (Inl e, controller', out')
     | (Inr _, controller', out') \<Rightarrow> app_loop txs controller' out')"

text \<open>
  \<^verbatim>\<open>app_main\<close> for the first iterations of its loop: the start-up line, the set-up of
  the controller, then the loop. A failed set-up stops the program before any controller
  exists.
\<close>

definition app_main ::
  "rmt_driver \<Rightarrow> rmt_transmit_t list \<Rightarrow> (fault + unit) \<times> led_controller_t option \<times> log_line list" where
  "app_main drv txs =
    (let out = ESP_LOGI Starting_Rainbow_Demo [] in
     case initialize_led_controller drv of
       Inl e \<Rightarrow> (Inl e, None, out)
     | Inr controller \<Rightarrow>
         (case app_loop txs controller out of (res, controller', out') \<Rightarrow> (res, Some controller', out')))"

text \<open>
  The controllers the program can be in: the one the set-up returns, and the one any
  step leaves behind, whatever the driver does.
\<close>

inductive reachable :: "led_controller_t \<Rightarrow> bool" where
  reachable_init: "initialize_led_controller drv = Inr controller \<Longrightarrow> reachable controller"
| reachable_step: "reachable controller \<Longrightarrow>
     update_led_color tx controller out = (res, controller', out') \<Longrightarrow> reachable controller'"

text \<open>A driver whose calls all succeed, and a transmission that succeeds or fails.\<close>

definition driver_ok :: rmt_driver where
  "driver_ok = \<lparr>rmt_new_tx_channel = (ESP_OK, 1), rmt_new_led_strip_encoder = (ESP_OK, 2),
     rmt_enable = (\<lambda>_. ESP_OK)\<rparr>"

definition transmit_ok :: rmt_transmit_t where
  "transmit_ok = (\<lambda>_ _ _ _ _. ESP_OK)"

definition transmit_fail :: rmt_transmit_t where
  "transmit_fail = (\<lambda>_ _ _ _ _. 259)"

definition controller0 :: led_controller_t where
  "controller0 = \<lparr>channel = 1, encoder = 2, grb_data = [0, 0, 0], current_hue = 0\<rparr>"

text \<open>A transmission that succeeds whatever it is given.\<close>

definition succeeds :: "rmt_transmit_t \<Rightarrow> bool" where
  "succeeds tx = (\<forall>ch en d n k. tx ch en d n k = ESP_OK)"

text \<open>The controller and the log after the first \<open>n\<close> iterations of the loop.\<close>

definition controller_after ::
  "rmt_transmit_t list \<Rightarrow> led_controller_t \<Rightarrow> log_line list \<Rightarrow> nat \<Rightarrow> led_controller_t" where
  "controller_after txs c out n = fst (snd (app_loop (take n txs) c out))"

definition log_after ::
  "rmt_transmit_t list \<Rightarrow> led_controller_t \<Rightarrow> log_line list \<Rightarrow> nat \<Rightarrow> log_line list" where
  "log_after txs c out n = snd (snd (app_loop (take n txs) c out))"


section \<open>Bounds of the rounding\<close>

lemma rne_ge_floor: "\<lfloor>q\<rfloor> \<le> rne q"
  by (simp add: rne_def Let_def)

lemma rne_le_ceiling: "rne q \<le> \<lceil>q\<rceil>"
proof (cases "q = of_int \<lfloor>q\<rfloor>")
  case True
  then have "q - of_int \<lfloor>q\<rfloor> = 0" by simp
  then have "rne q = \<lfloor>q\<rfloor>" by (simp add: rne_def Let_def)
  then show ?thesis by (simp add: floor_le_ceiling)
next
  case False
  then have "\<lceil>q\<rceil> = \<lfloor>q\<rfloor> + 1" by (simp add: ceiling_altdef)
  then show ?thesis by (simp add: rne_def Let_def)
qed

lemma pow2_pos: "0 < pow2 e"
  by (simp add: pow2_def)

lemma pow2_nonpos: "e \<le> 0 \<Longrightarrow> pow2 e = 1 / 2 ^ nat (- e)"
  by (simp add: pow2_def)

lemma bitlen_mono: "a \<le> b \<Longrightarrow> bitlen a \<le> bitlen b"
  by (simp add: bitlen_def floorlog_mono)

lemma ilog2_le:
  assumes "\<bar>x\<bar> \<le> of_int N" and "0 < N"
  shows "ilog2 x \<le> bitlen N - 1"
proof (cases "1 \<le> \<bar>x\<bar>")
  case True
  from assms(1) have "\<lfloor>\<bar>x\<bar>\<rfloor> \<le> N" by (simp add: floor_le_iff)
  then have "bitlen \<lfloor>\<bar>x\<bar>\<rfloor> \<le> bitlen N" by (rule bitlen_mono)
  with True show ?thesis by (simp add: ilog2_def)
next
  case False
  have "0 \<le> bitlen (\<lceil>1 / \<bar>x\<bar>\<rceil> - 1)" by (rule bitlen_nonneg)
  moreover have "1 \<le> bitlen N"
    using assms(2) bitlen_eq_zero_iff [of N] bitlen_nonneg [of N] by linarith
  ultimately show ?thesis using False by (simp add: ilog2_def)
qed

lemma round_float_abs_le:
  assumes x: "\<bar>x\<bar> \<le> of_int N" and N: "0 < N" and p: "bitlen N \<le> int p" and emin: "emin \<le> 0"
  shows "\<bar>round_float p emin x\<bar> \<le> of_int N"
proof (cases "x = 0")
  case True
  with N show ?thesis by (simp add: round_float_def)
next
  case False
  define k where "k = max (ilog2 x) emin - int p + 1"
  define n where "n = nat (- k)"
  have "1 \<le> bitlen N"
    using N bitlen_eq_zero_iff [of N] bitlen_nonneg [of N] by linarith
  with ilog2_le [OF x N] p emin have "k \<le> 0" unfolding k_def by linarith
  then have u: "pow2 k = 1 / 2 ^ n" unfolding n_def by (rule pow2_nonpos)
  have r: "round_float p emin x = of_int (rne (x * 2 ^ n)) / 2 ^ n"
    using False by (simp add: round_float_def Let_def k_def [symmetric] u)
  have "\<bar>x * 2 ^ n\<bar> \<le> of_int N * 2 ^ n"
    using x by (simp add: abs_mult)
  then have b: "- of_int (N * 2 ^ n) \<le> x * 2 ^ n" "x * 2 ^ n \<le> of_int (N * 2 ^ n)"
    by (simp_all add: abs_le_iff)
  have "rne (x * 2 ^ n) \<le> \<lceil>x * 2 ^ n\<rceil>" by (rule rne_le_ceiling)
  also have "\<dots> \<le> N * 2 ^ n" using b(2) by (simp only: ceiling_le_iff)
  finally have hi: "rne (x * 2 ^ n) \<le> N * 2 ^ n" .
  have "- (N * 2 ^ n) \<le> \<lfloor>x * 2 ^ n\<rfloor>" using b(1) by (simp only: le_floor_iff of_int_minus)
  also have "\<dots> \<le> rne (x * 2 ^ n)" by (rule rne_ge_floor)
  finally have lo: "- (N * 2 ^ n) \<le> rne (x * 2 ^ n)" .
  from hi lo have "\<bar>rne (x * 2 ^ n)\<bar> \<le> N * 2 ^ n" by simp
  then have "\<bar>(of_int (rne (x * 2 ^ n)) :: rat)\<bar> \<le> of_int (N * 2 ^ n)"
    by (simp only: of_int_abs [symmetric] of_int_le_iff)
  then have "\<bar>(of_int (rne (x * 2 ^ n)) :: rat)\<bar> / 2 ^ n \<le> of_int N"
    by (simp add: divide_le_eq)
  then show ?thesis by (simp add: r)
qed

lemma round_float_nonneg:
  assumes "0 \<le> x"
  shows "0 \<le> round_float p emin x"
proof (cases "x = 0")
  case True
  then show ?thesis by (simp add: round_float_def)
next
  case False
  define u where "u = pow2 (max (ilog2 x) emin - int p + 1)"
  have u: "0 < u" unfolding u_def by (rule pow2_pos)
  with assms have "0 \<le> x / u" by simp
  then have "0 \<le> \<lfloor>x / u\<rfloor>" by simp
  also have "\<dots> \<le> rne (x / u)" by (rule rne_ge_floor)
  finally have "0 \<le> (of_int (rne (x / u)) :: rat) * u" using u by simp
  then show ?thesis using False by (simp add: round_float_def Let_def u_def)
qed

lemma bitlen_1: "bitlen 1 = 1"
  by (simp add: compute_bitlen)

lemma bitlen_255: "bitlen 255 = 8"
  by code_simp

lemma fl32_abs_le_1: "\<bar>x\<bar> \<le> 1 \<Longrightarrow> \<bar>fl32 x\<bar> \<le> 1"
  using round_float_abs_le [of x 1 24 "- 126"] by (simp add: fl32_def bitlen_1)

lemma fl64_abs_le_1: "\<bar>x\<bar> \<le> 1 \<Longrightarrow> \<bar>fl64 x\<bar> \<le> 1"
  using round_float_abs_le [of x 1 53 "- 1022"] by (simp add: fl64_def bitlen_1)

lemma fl32_abs_le_255: "\<bar>x\<bar> \<le> 255 \<Longrightarrow> \<bar>fl32 x\<bar> \<le> 255"
  using round_float_abs_le [of x 255 24 "- 126"] by (simp add: fl32_def bitlen_255)

lemma fl32_nonneg: "0 \<le> x \<Longrightarrow> 0 \<le> fl32 x"
  by (simp add: fl32_def round_float_nonneg)

lemma fl64_nonneg: "0 \<le> x \<Longrightarrow> 0 \<le> fl64 x"
  by (simp add: fl64_def round_float_nonneg)

lemma fl32_unit: "0 \<le> x \<Longrightarrow> x \<le> 1 \<Longrightarrow> 0 \<le> fl32 x \<and> fl32 x \<le> 1"
  using fl32_abs_le_1 [of x] fl32_nonneg [of x] by simp

lemma fl64_unit: "0 \<le> x \<Longrightarrow> x \<le> 1 \<Longrightarrow> 0 \<le> fl64 x \<and> fl64 x \<le> 1"
  using fl64_abs_le_1 [of x] fl64_nonneg [of x] by simp

lemma fl32_byte: "0 \<le> x \<Longrightarrow> x \<le> 255 \<Longrightarrow> 0 \<le> fl32 x \<and> fl32 x \<le> 255"
  using fl32_abs_le_255 [of x] fl32_nonneg [of x] by simp

lemma fmod_2_range:
  assumes "0 \<le> y"
  shows "0 \<le> fmod y 2" and "fmod y 2 < 2"
proof -
  have t: "trunc (y / 2) = \<lfloor>y / 2\<rfloor>" using assms by (simp add: trunc_def)
  have "of_int \<lfloor>y / 2\<rfloor> \<le> y / 2" by (rule of_int_floor_le)
  then show "0 \<le> fmod y 2" by (simp add: fmod_def t)
  have "y / 2 < of_int \<lfloor>y / 2\<rfloor> + 1" by linarith
  then show "fmod y 2 < 2" by (simp add: fmod_def t)
qed

text \<open>The secondary value at chroma 1 lies between 0 and 1.\<close>

lemma secondary_range:
  fixes h :: "16 word"
  defines "X \<equiv> fl32 (fl64 (1 * fl64 (1 - \<bar>fl64 (fmod (fl32 (of_int (uint h) / 60)) 2 - 1)\<bar>)))"
  shows "0 \<le> X \<and> X \<le> 1"
proof -
  define y where "y = fl32 (of_int (uint h) / 60)"
  define a where "a = fl64 (fmod y 2 - 1)"
  define b where "b = fl64 (1 - \<bar>a\<bar>)"
  have "0 \<le> uint h" by simp
  then have "0 \<le> (of_int (uint h) :: rat)" by (simp only: of_int_0_le_iff)
  then have "0 \<le> (of_int (uint h) :: rat) / 60" by (rule divide_nonneg_nonneg) simp
  then have "0 \<le> y" unfolding y_def by (rule fl32_nonneg)
  then have "\<bar>fmod y 2 - 1\<bar> \<le> 1" using fmod_2_range [of y] by (simp add: abs_le_iff)
  then have "\<bar>a\<bar> \<le> 1" unfolding a_def by (rule fl64_abs_le_1)
  then have "0 \<le> 1 - \<bar>a\<bar>" and "1 - \<bar>a\<bar> \<le> 1" by simp_all
  then have "0 \<le> b \<and> b \<le> 1" unfolding b_def by (rule fl64_unit)
  then have "0 \<le> fl64 b \<and> fl64 b \<le> 1" by (simp add: fl64_unit)
  then have "0 \<le> fl32 (fl64 b) \<and> fl32 (fl64 b) \<le> 1" by (simp add: fl32_unit)
  moreover have "X = fl32 (fl64 b)" by (simp add: X_def b_def a_def y_def)
  ultimately show ?thesis by simp
qed

lemma channel_defined:
  assumes "0 \<le> x" and "x \<le> 1"
  shows "\<exists>w. to_uint8 (fl32 (fl32 (x + 0) * 255)) = Some w"
proof -
  define z where "z = fl32 (fl32 x * 255)"
  from assms have "0 \<le> fl32 x \<and> fl32 x \<le> 1" by (rule fl32_unit)
  then have "0 \<le> fl32 x * 255" and "fl32 x * 255 \<le> 255" by simp_all
  then have z: "0 \<le> z \<and> z \<le> 255" unfolding z_def by (rule fl32_byte)
  then have "0 \<le> \<lfloor>z\<rfloor>" and "\<lfloor>z\<rfloor> \<le> 255" by (simp_all add: floor_le_iff)
  with z have "\<exists>w. to_uint8 z = Some w" by (simp add: to_uint8_def trunc_def Let_def)
  then show ?thesis by (simp add: z_def)
qed

lemma fl32_1: "fl32 1 = 1"
  by code_simp

lemma fl32_0: "fl32 0 = 0"
  by (simp add: fl32_def round_float_def)

lemma channel_one: "to_uint8 (fl32 (fl32 (1 + 0) * 255)) = Some 255"
  by code_simp

lemma channel_zero: "to_uint8 (fl32 (fl32 (0 + 0) * 255)) = Some 0"
  by code_simp


section \<open>The rounding is the nearest value of the format\<close>

lemma ilog2_bounds:
  assumes "x \<noteq> 0"
  shows "pow2 (ilog2 x) \<le> \<bar>x\<bar>" and "\<bar>x\<bar> < pow2 (ilog2 x + 1)"
proof -
  have "pow2 (ilog2 x) \<le> \<bar>x\<bar> \<and> \<bar>x\<bar> < pow2 (ilog2 x + 1)"
  proof (cases "1 \<le> \<bar>x\<bar>")
    case True
    define n where "n = \<lfloor>\<bar>x\<bar>\<rfloor>"
    from True have n: "0 < n" unfolding n_def by simp
    from bitlen_bounds [OF n] have lo: "2 ^ nat (bitlen n - 1) \<le> n" and hi: "n < 2 ^ nat (bitlen n)"
      by simp_all
    have b: "1 \<le> bitlen n"
      using n bitlen_eq_zero_iff [of n] bitlen_nonneg [of n] by linarith
    have e: "ilog2 x = bitlen n - 1" using True by (simp add: ilog2_def n_def)
    have "(of_int (2 ^ nat (bitlen n - 1)) :: rat) \<le> of_int n"
      using lo by (simp only: of_int_le_iff)
    also have "\<dots> \<le> \<bar>x\<bar>" unfolding n_def by (rule of_int_floor_le)
    finally have 1: "pow2 (ilog2 x) \<le> \<bar>x\<bar>" using b by (simp add: e pow2_def)
    from hi have "n + 1 \<le> 2 ^ nat (bitlen n)" by simp
    then have "(of_int (n + 1) :: rat) \<le> of_int (2 ^ nat (bitlen n))"
      by (simp only: of_int_le_iff)
    moreover have "\<bar>x\<bar> < of_int (n + 1)" unfolding n_def by linarith
    ultimately have "\<bar>x\<bar> < 2 ^ nat (bitlen n)" by simp
    then have 2: "\<bar>x\<bar> < pow2 (ilog2 x + 1)" using b by (simp add: e pow2_def)
    from 1 2 show ?thesis ..
  next
    case False
    define y where "y = 1 / \<bar>x\<bar>"
    define m where "m = \<lceil>y\<rceil> - 1"
    define b where "b = bitlen m"
    from False assms have x: "0 < \<bar>x\<bar>" "\<bar>x\<bar> < 1" by simp_all
    then have y: "1 < y" unfolding y_def by simp
    then have m: "0 < m" unfolding m_def by linarith
    have my: "of_int m < y" "y \<le> of_int m + 1" unfolding m_def by linarith+
    from bitlen_bounds [OF m] have lo: "2 ^ nat (b - 1) \<le> m" and hi: "m < 2 ^ nat b"
      unfolding b_def by simp_all
    have b: "1 \<le> b"
      unfolding b_def using m bitlen_eq_zero_iff [of m] bitlen_nonneg [of m] by linarith
    have e: "ilog2 x = - b" using False by (simp add: ilog2_def b_def m_def y_def)
    from hi have "m + 1 \<le> 2 ^ nat b" by simp
    then have "(of_int (m + 1) :: rat) \<le> of_int (2 ^ nat b)" by (simp only: of_int_le_iff)
    with my(2) have "y \<le> 2 ^ nat b" by simp
    then have "1 / \<bar>x\<bar> \<le> 2 ^ nat b" by (simp add: y_def)
    then have "1 \<le> 2 ^ nat b * \<bar>x\<bar>" using x(1) by (simp add: divide_le_eq)
    then have "1 / 2 ^ nat b \<le> \<bar>x\<bar>" by (simp add: divide_le_eq mult.commute)
    then have 1: "pow2 (ilog2 x) \<le> \<bar>x\<bar>" using b by (simp add: e pow2_def)
    have "(of_int (2 ^ nat (b - 1)) :: rat) \<le> of_int m" using lo by (simp only: of_int_le_iff)
    then have "(2 :: rat) ^ nat (b - 1) \<le> of_int m" by simp
    from this my(1) have "2 ^ nat (b - 1) < y" by (rule le_less_trans)
    then have "2 ^ nat (b - 1) < 1 / \<bar>x\<bar>" by (simp add: y_def)
    then have "2 ^ nat (b - 1) * \<bar>x\<bar> < 1" using x(1) by (simp add: less_divide_eq)
    then have "\<bar>x\<bar> < 1 / 2 ^ nat (b - 1)" by (simp add: less_divide_eq mult.commute)
    moreover have "pow2 (- b + 1) = 1 / 2 ^ nat (b - 1)"
      using b by (simp add: pow2_nonpos)
    ultimately have 2: "\<bar>x\<bar> < pow2 (ilog2 x + 1)" by (simp add: e)
    from 1 2 show ?thesis ..
  qed
  then show "pow2 (ilog2 x) \<le> \<bar>x\<bar>" and "\<bar>x\<bar> < pow2 (ilog2 x + 1)" by simp_all
qed

lemma rne_nearest: "\<bar>of_int (rne q) - q\<bar> \<le> 1 / 2"
proof -
  have "of_int \<lfloor>q\<rfloor> \<le> q" "q < of_int \<lfloor>q\<rfloor> + 1" by linarith+
  then show ?thesis by (auto simp: rne_def Let_def abs_le_iff)
qed

lemma round_float_nearest:
  "\<bar>round_float p emin x - x\<bar> \<le> pow2 (max (ilog2 x) emin - int p + 1) / 2"
proof (cases "x = 0")
  case True
  then show ?thesis using pow2_pos [of "max (ilog2 x) emin - int p + 1"]
    by (simp add: round_float_def)
next
  case False
  define u where "u = pow2 (max (ilog2 x) emin - int p + 1)"
  have u: "0 < u" unfolding u_def by (rule pow2_pos)
  have "round_float p emin x = of_int (rne (x / u)) * u"
    using False by (simp add: round_float_def Let_def u_def)
  then have "round_float p emin x - x = (of_int (rne (x / u)) - x / u) * u"
    using u by (simp add: algebra_simps)
  then have "\<bar>round_float p emin x - x\<bar> = \<bar>of_int (rne (x / u)) - x / u\<bar> * u"
    using u by (simp add: abs_mult)
  also have "\<dots> \<le> 1 / 2 * u"
    using rne_nearest [of "x / u"] u by (intro mult_right_mono) simp_all
  finally show ?thesis by (simp add: u_def)
qed

text \<open>
  Two values of the formats that are known outside the model: one tenth in binary32 is
  \<open>13421773 / 2 ^ 27\<close>, in binary64 \<open>3602879701896397 / 2 ^ 55\<close>.
\<close>

lemma fl32_tenth: "fl32 (1 / 10) = 13421773 / 2 ^ 27"
  by code_simp

lemma fl64_tenth: "fl64 (1 / 10) = 3602879701896397 / 2 ^ 55"
  by code_simp

text \<open>
  The rounding shows in the frames: at hue 80 the secondary value is \<open>2 / 3\<close> in exact
  arithmetic, which would give the byte 170; the \<^verbatim>\<open>float\<close> computation gives 169.
\<close>

lemma hsv_at_80: "hsv_to_grb 80 100 100 = Some [255, 169, 0]"
  by code_simp


section \<open>The relative error of the rounding\<close>

lemma pow2_powi: "pow2 e = 2 powi e"
  by (simp add: pow2_def power_int_def inverse_eq_divide power_one_over)

lemma pow2_add: "pow2 (i + j) = pow2 i * pow2 j"
  by (simp add: pow2_powi power_int_add)

lemma pow2_mono: "i \<le> j \<Longrightarrow> pow2 i \<le> pow2 j"
  by (simp add: pow2_powi power_int_increasing)

lemma round_float_error:
  assumes "emin \<le> 0"
  shows "\<bar>round_float p emin x - x\<bar> \<le> (\<bar>x\<bar> + 1) * pow2 (- int p)"
proof (cases "x = 0")
  case True
  then show ?thesis using pow2_pos [of "- int p"] by (simp add: round_float_def)
next
  case False
  define u where "u = pow2 (max (ilog2 x) emin - int p + 1)"
  have h: "pow2 (1 - int p) = 2 * pow2 (- int p)"
    using pow2_add [of 1 "- int p"] by (simp add: pow2_def)
  have "u \<le> (\<bar>x\<bar> + 1) * pow2 (1 - int p)"
  proof (cases "emin \<le> ilog2 x")
    case True
    then have "u = pow2 (ilog2 x) * pow2 (1 - int p)"
      using pow2_add [of "ilog2 x" "1 - int p"] by (simp add: u_def max_def algebra_simps)
    also have "\<dots> \<le> \<bar>x\<bar> * pow2 (1 - int p)"
      using ilog2_bounds(1) [OF False] pow2_pos [of "1 - int p"] by (simp add: mult_right_mono)
    also have "\<dots> \<le> (\<bar>x\<bar> + 1) * pow2 (1 - int p)"
      using pow2_pos [of "1 - int p"] by (simp add: mult_right_mono)
    finally show ?thesis .
  next
    case False
    then have "u = pow2 (emin + (1 - int p))" by (simp add: u_def max_def algebra_simps)
    also have "\<dots> \<le> pow2 (1 - int p)" using assms by (intro pow2_mono) simp
    also have "\<dots> \<le> (\<bar>x\<bar> + 1) * pow2 (1 - int p)"
      using pow2_pos [of "1 - int p"] by (simp add: mult_le_cancel_right1)
    finally show ?thesis .
  qed
  then have "u / 2 \<le> (\<bar>x\<bar> + 1) * pow2 (- int p)" by (simp add: h)
  with round_float_nearest [of p emin x] show ?thesis unfolding u_def by linarith
qed

lemma fl32_error: "\<bar>fl32 x - x\<bar> \<le> (\<bar>x\<bar> + 1) / 16777216"
  using round_float_error [of "- 126" 24 x] by (simp add: fl32_def pow2_def)

lemma fl64_error: "\<bar>fl64 x - x\<bar> \<le> (\<bar>x\<bar> + 1) / 16777216"
proof -
  have "\<bar>fl64 x - x\<bar> \<le> (\<bar>x\<bar> + 1) * (1 / 2 ^ 53)"
    using round_float_error [of "- 1022" 53 x] by (simp add: fl64_def pow2_def)
  also have "\<dots> \<le> (\<bar>x\<bar> + 1) * (1 / 16777216)"
    by (intro mult_left_mono) simp_all
  finally show ?thesis by simp
qed


section \<open>The conversion is defined on the documented domain\<close>

lemma percent_unit:
  fixes s :: "8 word"
  assumes "s \<le> 100"
  shows "0 \<le> fl32 (of_int (uint s) / 100) \<and> fl32 (of_int (uint s) / 100) \<le> 1"
proof (rule fl32_unit)
  have "0 \<le> uint s" by simp
  then have "0 \<le> (of_int (uint s) :: rat)" by (simp only: of_int_0_le_iff)
  then show "0 \<le> (of_int (uint s) :: rat) / 100" by (rule divide_nonneg_nonneg) simp
  from assms have "uint s \<le> 100" by (simp add: word_le_def)
  then have "(of_int (uint s) :: rat) \<le> of_int 100" by (simp only: of_int_le_iff)
  then show "(of_int (uint s) :: rat) / 100 \<le> 1" by simp
qed

lemma channel_in_domain:
  assumes "- 4 / 16777216 \<le> t" and "t \<le> 1 + 6 / 16777216"
  shows "\<exists>w. to_uint8 (fl32 (fl32 t * 255)) = Some w"
proof -
  define a where "a = fl32 t"
  define z where "z = fl32 (a * 255)"
  from assms have "\<bar>t\<bar> \<le> 2" by linarith
  with fl32_error [of t] have "\<bar>a - t\<bar> \<le> 3 / 16777216"
    unfolding a_def by (simp add: field_simps)
  with assms have a: "- 7 / 16777216 \<le> a" "a \<le> 1 + 9 / 16777216"
    by linarith+
  then have "\<bar>a * 255\<bar> \<le> 256" by linarith
  with fl32_error [of "a * 255"] have "\<bar>z - a * 255\<bar> \<le> 257 / 16777216"
    unfolding z_def by (simp add: field_simps)
  with a have z: "- 1 < z" "z < 256" by linarith+
  then have "0 \<le> trunc z \<and> trunc z \<le> 255"
    by (auto simp: trunc_def floor_le_iff le_ceiling_iff ceiling_le_iff le_floor_iff)
  then show ?thesis by (simp add: to_uint8_def Let_def z_def a_def)
qed

text \<open>
  For a chroma between 0 and 1, the secondary value is not negative and exceeds the
  chroma by less than a rounding error.
\<close>

lemma secondary_bounds:
  fixes h :: "16 word"
  assumes "0 \<le> C" and "C \<le> 1"
  defines "X \<equiv> fl32 (fl64 (C * fl64 (1 - \<bar>fl64 (fmod (fl32 (of_int (uint h) / 60)) 2 - 1)\<bar>)))"
  shows "0 \<le> X" and "X \<le> C + 4 / 16777216"
proof -
  define y where "y = fl32 (of_int (uint h) / 60)"
  define a where "a = fl64 (fmod y 2 - 1)"
  define b where "b = fl64 (1 - \<bar>a\<bar>)"
  define Q where "Q = fl64 (C * b)"
  have "0 \<le> uint h" by simp
  then have "0 \<le> (of_int (uint h) :: rat)" by (simp only: of_int_0_le_iff)
  then have "0 \<le> (of_int (uint h) :: rat) / 60" by (rule divide_nonneg_nonneg) simp
  then have "0 \<le> y" unfolding y_def by (rule fl32_nonneg)
  then have "\<bar>fmod y 2 - 1\<bar> \<le> 1" using fmod_2_range [of y] by (simp add: abs_le_iff)
  then have "\<bar>a\<bar> \<le> 1" unfolding a_def by (rule fl64_abs_le_1)
  then have "0 \<le> 1 - \<bar>a\<bar>" and "1 - \<bar>a\<bar> \<le> 1" by simp_all
  then have b: "0 \<le> b \<and> b \<le> 1" unfolding b_def by (rule fl64_unit)
  with assms(1,2) have p: "0 \<le> C * b" "C * b \<le> C" "C * b \<le> 1"
    by (simp_all add: mult_left_le mult_le_one)
  then have q: "0 \<le> Q \<and> Q \<le> 1" unfolding Q_def by (intro fl64_unit)
  from p have "\<bar>C * b\<bar> \<le> 1" by simp
  with fl64_error [of "C * b"] have "\<bar>Q - C * b\<bar> \<le> 2 / 16777216"
    unfolding Q_def by (simp add: field_simps)
  with p(2) have q2: "Q \<le> C + 2 / 16777216" by linarith
  have X: "X = fl32 Q" by (simp add: X_def Q_def b_def a_def y_def)
  from q have x: "0 \<le> fl32 Q \<and> fl32 Q \<le> 1" by (intro fl32_unit) simp_all
  from q have "\<bar>Q\<bar> \<le> 1" by simp
  with fl32_error [of Q] have "\<bar>fl32 Q - Q\<bar> \<le> 2 / 16777216" by (simp add: field_simps)
  with q2 have "fl32 Q \<le> C + 4 / 16777216" by linarith
  with x show "0 \<le> X" and "X \<le> C + 4 / 16777216" unfolding X by simp_all
qed

lemma hsv_defined_on_domain:
  assumes "s \<le> 100" and "v \<le> 100"
  shows "\<exists>g r b. hsv_to_grb h s v = Some [g, r, b]"
proof -
  define S where "S = fl32 (of_int (uint s) / 100)"
  define V where "V = fl32 (of_int (uint v) / 100)"
  define C where "C = fl32 (V * S)"
  define X where "X = fl32 (fl64 (C * fl64 (1 - \<bar>fl64 (fmod (fl32 (of_int (uint (h mod 360)) / 60)) 2 - 1)\<bar>)))"
  define m where "m = fl32 (V - C)"
  have S: "0 \<le> S \<and> S \<le> 1" unfolding S_def using assms(1) by (rule percent_unit)
  have V: "0 \<le> V \<and> V \<le> 1" unfolding V_def using assms(2) by (rule percent_unit)
  from S V have p: "0 \<le> V * S" "V * S \<le> V" "V * S \<le> 1"
    by (simp_all add: mult_left_le mult_le_one)
  then have C: "0 \<le> C \<and> C \<le> 1" unfolding C_def by (intro fl32_unit)
  from p have "\<bar>V * S\<bar> \<le> 1" by simp
  with fl32_error [of "V * S"] have "\<bar>C - V * S\<bar> \<le> 2 / 16777216"
    unfolding C_def by (simp add: field_simps)
  with p(2) have CV: "C \<le> V + 2 / 16777216" by linarith
  from C V have "\<bar>V - C\<bar> \<le> 1" by linarith
  with fl32_error [of "V - C"] have "\<bar>m - (V - C)\<bar> \<le> 2 / 16777216"
    unfolding m_def by (simp add: field_simps)
  with CV have m: "- 4 / 16777216 \<le> m" "m \<le> V - C + 2 / 16777216"
    by linarith+
  from C have C0: "0 \<le> C" and C1: "C \<le> 1" by simp_all
  have X: "0 \<le> X" "X \<le> C + 4 / 16777216"
    unfolding X_def by (rule secondary_bounds [OF C0 C1])+
  from C V m obtain wC where wC: "to_uint8 (fl32 (fl32 (C + m) * 255)) = Some wC"
    using channel_in_domain [of "C + m"] by auto
  from X C V m obtain wX where wX: "to_uint8 (fl32 (fl32 (X + m) * 255)) = Some wX"
    using channel_in_domain [of "X + m"] by auto
  from C V m obtain w0 where w0: "to_uint8 (fl32 (fl32 (0 + m) * 255)) = Some w0"
    using channel_in_domain [of "0 + m"] by auto
  have "hsv_to_grb h s v =
      (case sector_rgb (h mod 360) C X of (r, g, b) \<Rightarrow>
         (case (to_uint8 (fl32 (fl32 (g + m) * 255)),
                to_uint8 (fl32 (fl32 (r + m) * 255)),
                to_uint8 (fl32 (fl32 (b + m) * 255))) of
            (Some g8, Some r8, Some b8) \<Rightarrow> Some [g8, r8, b8]
          | _ \<Rightarrow> None))"
    by (simp add: hsv_to_grb_def Let_def S_def V_def C_def X_def m_def)
  with wC wX w0 show ?thesis by (simp add: sector_rgb_def)
qed


section \<open>The frame at full saturation and value\<close>

lemma hsv_full_frame:
  "\<exists>frame. hsv_to_grb h 100 100 = Some frame \<and> length frame = 3 \<and> 255 \<in> set frame \<and> 0 \<in> set frame"
proof -
  let ?X = "fl32 (fl64 (1 * fl64 (1 - \<bar>fl64 (fmod (fl32 (of_int (uint (h mod 360)) / 60)) 2 - 1)\<bar>)))"
  obtain w where w: "to_uint8 (fl32 (fl32 (?X + 0) * 255)) = Some w"
    using channel_defined secondary_range [of "h mod 360"] by blast
  have S: "fl32 (of_int (uint (100 :: 8 word)) / 100) = 1"
    by (simp add: fl32_1)
  show ?thesis
    unfolding hsv_to_grb_def Let_def S
    using w channel_one channel_zero by (simp add: fl32_1 fl32_0 sector_rgb_def)
qed

lemma hsv_full_defined: "\<exists>frame. hsv_to_grb h 100 100 = Some frame"
  using hsv_full_frame [of h] by blast

section \<open>The step\<close>

lemma update_led_color_eq:
  assumes "hsv_to_grb (current_hue c) 100 100 = Some grb"
  shows "update_led_color tx c out =
    (if tx (channel c) (encoder c) grb (length grb) 0 = ESP_OK
     then (Inr (), c\<lparr>grb_data := grb, current_hue := next_hue (current_hue c)\<rparr>,
           if uint (current_hue c) mod 10 = 0
           then out @ [Hue_GRB (current_hue c) (grb ! 0) (grb ! 1) (grb ! 2)] else out)
     else (Inl (Abort (tx (channel c) (encoder c) grb (length grb) 0)), c\<lparr>grb_data := grb\<rparr>, out))"
  using assms by (simp add: update_led_color_def ESP_ERROR_CHECK_def ESP_LOGI_def Let_def)

lemma update_led_color_hue:
  "update_led_color tx c out = (res, c', out') \<Longrightarrow>
     current_hue c' = (if res = Inr () then next_hue (current_hue c) else current_hue c)"
  using hsv_full_defined [of "current_hue c"]
  by (auto simp: update_led_color_eq split: if_splits)

lemma next_hue_uint: "uint (next_hue h) = (uint h + 2) mod 360"
proof -
  have "0 \<le> (uint h + 2) mod 360" and "(uint h + 2) mod 360 < 360" by simp_all
  then have "(uint h + 2) mod 360 mod 2 ^ 16 = (uint h + 2) mod 360" by simp
  then show ?thesis by (simp add: next_hue_def HUE_STEP_def uint_word_of_int)
qed

lemma next_hue_funpow:
  "uint h < 360 \<Longrightarrow> uint ((next_hue ^^ n) h) = (uint h + 2 * int n) mod 360"
proof (induction n)
  case 0
  then show ?case by simp
next
  case (Suc n)
  have "uint ((next_hue ^^ Suc n) h) = (uint ((next_hue ^^ n) h) + 2) mod 360"
    by (simp add: next_hue_uint)
  also have "\<dots> = ((uint h + 2 * int n) mod 360 + 2) mod 360"
    using Suc by simp
  also have "\<dots> = (uint h + 2 * int (Suc n)) mod 360"
    by (simp add: mod_simps algebra_simps)
  finally show ?case .
qed

section \<open>The loop\<close>

lemma app_loop_snoc:
  "app_loop (txs @ [tx]) c out =
    (case app_loop txs c out of
       (Inl e, c', out') \<Rightarrow> (Inl e, c', out')
     | (Inr u, c', out') \<Rightarrow> update_led_color tx c' out')"
proof (induction txs arbitrary: c out)
  case Nil
  then show ?case by (auto split: prod.splits sum.splits)
next
  case (Cons a txs)
  then show ?case by (auto split: prod.splits sum.splits)
qed

lemma app_loop_succeeds:
  "list_all succeeds txs \<Longrightarrow> fst (app_loop txs c out) = Inr ()"
proof (induction txs arbitrary: c out)
  case Nil
  then show ?case by simp
next
  case (Cons tx txs)
  obtain grb where grb: "hsv_to_grb (current_hue c) 100 100 = Some grb"
    using hsv_full_defined by blast
  from Cons.prems have "tx (channel c) (encoder c) grb (length grb) 0 = ESP_OK"
    by (simp add: succeeds_def)
  with Cons grb show ?case by (simp add: update_led_color_eq)
qed

lemma app_loop_hue:
  "app_loop txs c out = (Inr (), c', out') \<Longrightarrow> current_hue c' = (next_hue ^^ length txs) (current_hue c)"
proof (induction txs arbitrary: c out)
  case Nil
  then show ?case by simp
next
  case (Cons tx txs)
  obtain res c1 out1 where u: "update_led_color tx c out = (res, c1, out1)"
    by (cases "update_led_color tx c out") auto
  with Cons.prems have res: "res = Inr ()" and rest: "app_loop txs c1 out1 = (Inr (), c', out')"
    by (auto split: sum.splits)
  from update_led_color_hue [OF u] res have "current_hue c1 = next_hue (current_hue c)" by simp
  with Cons.IH [OF rest] show ?case by (simp add: funpow_swap1)
qed

lemma app_loop_log:
  "app_loop txs c out = (Inr (), c', out') \<Longrightarrow>
     length out' = length out +
       length (filter (\<lambda>k. uint ((next_hue ^^ k) (current_hue c)) mod 10 = 0) [0..<length txs])"
proof (induction txs arbitrary: c' out' rule: rev_induct)
  case Nil
  then show ?case by simp
next
  case (snoc tx txs)
  obtain res c1 out1 where l: "app_loop txs c out = (res, c1, out1)"
    by (cases "app_loop txs c out") auto
  with snoc.prems have res: "res = Inr ()" and u: "update_led_color tx c1 out1 = (Inr (), c', out')"
    by (auto simp: app_loop_snoc split: sum.splits)
  from l res have l': "app_loop txs c out = (Inr (), c1, out1)" by simp
  obtain grb where grb: "hsv_to_grb (current_hue c1) 100 100 = Some grb"
    using hsv_full_defined by blast
  from u grb have "length out1' = length out1 + (if uint (current_hue c1) mod 10 = 0 then 1 else 0)"
    if "out1' = out'" for out1'
    using that by (auto simp: update_led_color_eq split: if_splits)
  then have "length out' = length out1 + (if uint (current_hue c1) mod 10 = 0 then 1 else 0)"
    by simp
  with snoc.IH [OF l'] app_loop_hue [OF l'] show ?case by simp
qed


section \<open>Sectors and reference outputs\<close>

lemma sector_rgb_index:
  "sector_rgb h C X =
     [(C, X, 0), (X, C, 0), (0, C, X), (0, X, C), (X, 0, C), (C, 0, X)] ! min 5 (unat h div 60)"
proof -
  define n where "n = unat h"
  consider "n < 60" | "60 \<le> n" "n < 120" | "120 \<le> n" "n < 180" | "180 \<le> n" "n < 240"
    | "240 \<le> n" "n < 300" | "300 \<le> n"
    by linarith
  then show ?thesis
  proof cases
    case 1
    then have "n div 60 = 0" by simp
    with 1 show ?thesis by (simp add: sector_rgb_def word_less_nat_alt n_def [symmetric])
  next
    case 2
    then have "n div 60 = 1" by linarith
    with 2 show ?thesis by (simp add: sector_rgb_def word_less_nat_alt n_def [symmetric])
  next
    case 3
    then have "n div 60 = 2" by linarith
    with 3 show ?thesis by (simp add: sector_rgb_def word_less_nat_alt n_def [symmetric])
  next
    case 4
    then have "n div 60 = 3" by linarith
    with 4 show ?thesis by (simp add: sector_rgb_def word_less_nat_alt n_def [symmetric])
  next
    case 5
    then have "n div 60 = 4" by linarith
    with 5 show ?thesis by (simp add: sector_rgb_def word_less_nat_alt n_def [symmetric])
  next
    case 6
    then have "5 \<le> n div 60" by linarith
    then have "min 5 (n div 60) = 5" by simp
    with 6 show ?thesis by (simp add: sector_rgb_def word_less_nat_alt n_def [symmetric])
  qed
qed

lemma hsv_at_0: "hsv_to_grb 0 100 100 = Some [0, 255, 0]"
  by code_simp

lemma hsv_at_120: "hsv_to_grb 120 100 100 = Some [255, 0, 0]"
  by code_simp

lemma hsv_at_240: "hsv_to_grb 240 100 100 = Some [0, 0, 255]"
  by code_simp

text \<open>
  Claim C1. At saturation 100 and value 100 the conversion gives the reference frames:
  hue 0 gives the bytes 0, 255, 0; hue 120 gives 255, 0, 0; hue 240 gives 0, 0, 255. A hue
  on a sector boundary belongs to the sector that starts there: 60, 120, 180, 240 and 300
  take the triple of the second to the sixth sector; for every hue the triple is the one
  of the sector numbered by the hue divided by 60, the part of a degree dropped, so each
  sector is a half-open interval.
\<close>

theorem golden_boundary_outputs:
  "hsv_to_grb 0 100 100 = Some [0, 255, 0] \<and>
   hsv_to_grb 120 100 100 = Some [255, 0, 0] \<and>
   hsv_to_grb 240 100 100 = Some [0, 0, 255] \<and>
   sector_rgb 60 C X = (X, C, 0) \<and>
   sector_rgb 120 C X = (0, C, X) \<and>
   sector_rgb 180 C X = (0, X, C) \<and>
   sector_rgb 240 C X = (X, 0, C) \<and>
   sector_rgb 300 C X = (C, 0, X) \<and>
   sector_rgb h C X =
     [(C, X, 0), (X, C, 0), (0, C, X), (0, X, C), (X, 0, C), (C, 0, X)] ! min 5 (unat h div 60)"
proof -
  have "sector_rgb 60 C X = (X, C, 0)" "sector_rgb 120 C X = (0, C, X)"
    "sector_rgb 180 C X = (0, X, C)" "sector_rgb 240 C X = (X, 0, C)"
    "sector_rgb 300 C X = (C, 0, X)"
    by (simp_all add: sector_rgb_def)
  with hsv_at_0 hsv_at_120 hsv_at_240 sector_rgb_index [of h C X] show ?thesis
    by (simp only: simp_thms)
qed

lemma hsv_to_grb_raw_rgb:
  "hsv_to_grb h s v = map_option (\<lambda>c. [green c, red c, blue c]) (raw_rgb h s v)"
proof -
  have n: "unat (h mod 360) = unat h mod 360"
    by (simp add: unat_mod)
  then have "unat (h mod 360) < 360" by simp
  then have "unat (h mod 360) div 60 \<le> 5" by linarith
  then have m: "min 5 (unat (h mod 360) div 60) = unat h mod 360 div 60"
    by (simp add: n)
  have u: "(of_int (uint w) :: rat) = of_nat (unat w)" for w :: "'a::len word"
    by simp
  show ?thesis
    unfolding hsv_to_grb_def raw_rgb_def Let_def channel_byte_def sector_rgb_index m u n
    by (simp split: prod.splits option.splits)
qed

lemma hsv_at_200_37_91: "hsv_to_grb 200 37 91 = Some [203, 146, 232]"
  by code_simp

text \<open>
  Claim C2. For every hue and every saturation and value from 0 to 100, the conversion of
  the specification gives a red, a green and a blue channel, and the frame of
  \<^verbatim>\<open>hsv_to_grb\<close> is these three bytes in another order: byte 0 is the green channel,
  byte 1 the red channel, byte 2 the blue channel.
\<close>

theorem reorder_is_permutation:
  assumes "s \<le> 100" and "v \<le> 100"
  shows "\<exists>c. raw_rgb h s v = Some c \<and> hsv_to_grb h s v = Some [green c, red c, blue c]"
proof -
  from assms obtain g r b where f: "hsv_to_grb h s v = Some [g, r, b]"
    using hsv_defined_on_domain by blast
  then have "map_option (\<lambda>c. [green c, red c, blue c]) (raw_rgb h s v) = Some [g, r, b]"
    by (simp only: hsv_to_grb_raw_rgb)
  then obtain c where "raw_rgb h s v = Some c" and "[green c, red c, blue c] = [g, r, b]"
    by (cases "raw_rgb h s v") auto
  with f show ?thesis by simp
qed

text \<open>
  Hue 200 at saturation 37 and value 91: the channels are red 146, green 203 and blue
  232, and the frame is 203, 146, 232.
\<close>

theorem reorder_is_permutation_witness:
  "raw_rgb 200 37 91 = Some \<lparr>red = 146, green = 203, blue = 232\<rparr> \<and>
   hsv_to_grb 200 37 91 = Some [203, 146, 232]"
proof -
  have "(37 :: 8 word) \<le> 100" and "(91 :: 8 word) \<le> 100" by simp_all
  from reorder_is_permutation [OF this, of 200] obtain c
    where c: "raw_rgb 200 37 91 = Some c"
      and f: "hsv_to_grb 200 37 91 = Some [green c, red c, blue c]"
    by blast
  from f have "green c = 203" "red c = 146" "blue c = 232"
    by (simp_all add: hsv_at_200_37_91)
  then have "c = \<lparr>red = 146, green = 203, blue = 232\<rparr>" by (cases c) simp
  with c show ?thesis by (simp add: hsv_at_200_37_91)
qed

text \<open>
  Claim C8, as amended. For every 16-bit hue the conversion of the hue and of the hue
  modulo 360 agree. An integer argument \<open>k\<close> is first converted to the 16-bit parameter,
  so its conversion is that of \<open>(k mod 65536) mod 360\<close>.
\<close>

theorem hue_reduced_modulo_360:
  "hsv_to_grb h s v = hsv_to_grb (h mod 360) s v \<and>
   hsv_to_grb (word_of_int k) s v = hsv_to_grb (word_of_int (k mod 65536 mod 360)) s v"
proof -
  have "w mod 360 mod 360 = w mod 360" for w :: "16 word"
    by (simp add: word_unat_eq_iff unat_mod)
  then have a: "hsv_to_grb w s v = hsv_to_grb (w mod 360) s v" for w
    unfolding hsv_to_grb_def by simp
  have "uint ((word_of_int k :: 16 word) mod 360) = k mod 65536 mod 360"
    by (simp add: uint_mod uint_word_of_int)
  then have "(word_of_int k :: 16 word) mod 360 = word_of_int (k mod 65536 mod 360)"
    by (metis word_of_int_uint)
  with a [of "word_of_int k"] a [of h] show ?thesis by simp
qed

text \<open>
  Claim C8 as stated fails for a negative argument: \<open>- 1\<close> arrives as 65535, which is hue
  15 and gives the frame 63, 255, 0, while \<open>- 1 mod 360 = 359\<close> gives 0, 255, 4.
\<close>

theorem hue_negative_counterexample:
  "hsv_to_grb (word_of_int (- 1)) 100 100 \<noteq> hsv_to_grb (word_of_int (- 1 mod 360)) 100 100"
proof -
  have "hsv_to_grb (word_of_int (- 1)) 100 100 = Some [63, 255, 0]"
    by code_simp
  moreover have "hsv_to_grb (word_of_int (- 1 mod 360)) 100 100 = Some [0, 255, 4]"
    by code_simp
  ultimately show ?thesis by simp
qed





text \<open>
  Claim C10. Whatever the hue of the controller, a step converts it at saturation 100 and
  value 100 into a frame of three bytes, the frame it stores and hands to the
  transmission, and that frame has a byte equal to 255 and a byte equal to 0. Every
  16-bit hue is covered, the hues below 360 among them.
\<close>

theorem full_frame_extremes:
  "\<exists>g r b. hsv_to_grb (current_hue c) 100 100 = Some [g, r, b] \<and>
     grb_data (fst (snd (update_led_color tx c out))) = [g, r, b] \<and>
     (g = 255 \<or> r = 255 \<or> b = 255) \<and> (g = 0 \<or> r = 0 \<or> b = 0)"
proof -
  obtain frame where f: "hsv_to_grb (current_hue c) 100 100 = Some frame"
    and l: "length frame = 3" and hi: "255 \<in> set frame" and lo: "0 \<in> set frame"
    using hsv_full_frame by blast
  from l obtain g r b where grb: "frame = [g, r, b]"
    by (auto simp: numeral_3_eq_3 length_Suc_conv)
  from f have "grb_data (fst (snd (update_led_color tx c out))) = frame"
    by (simp add: update_led_color_eq)
  with f hi lo show ?thesis unfolding grb by auto
qed


section \<open>The animation\<close>

lemma init_hue: "initialize_led_controller drv = Inr c \<Longrightarrow> current_hue c = 0"
  by (auto simp: initialize_led_controller_def ESP_ERROR_CHECK_def Let_def
      split: if_splits sum.splits)

lemma init_driver_ok: "initialize_led_controller driver_ok = Inr controller0"
  by (simp add: initialize_led_controller_def ESP_ERROR_CHECK_def driver_ok_def controller0_def)

lemma succeeds_transmit_ok: "succeeds transmit_ok"
  by (simp add: succeeds_def transmit_ok_def)

lemma all_succeed_replicate: "list_all succeeds (replicate n transmit_ok)"
  by (simp add: list_all_iff succeeds_transmit_ok)

lemma all_succeed_take: "list_all succeeds txs \<Longrightarrow> list_all succeeds (take n txs)"
  by (auto simp: list_all_iff dest: in_set_takeD)

lemma app_loop_run:
  "list_all succeeds txs \<Longrightarrow>
     app_loop txs c out = (Inr (), fst (snd (app_loop txs c out)), snd (snd (app_loop txs c out)))"
  using app_loop_succeeds [of txs c out] by (cases "app_loop txs c out") simp

lemma next_hue_less: "next_hue h < 360"
proof -
  have "uint (next_hue h) < 360" by (simp add: next_hue_uint)
  then show ?thesis by (simp add: word_less_alt)
qed

lemma update_led_color_bound:
  assumes "current_hue c < 360" and "update_led_color tx c out = (res, c', out')"
  shows "current_hue c' < 360"
  using update_led_color_hue [OF assms(2)] assms(1) next_hue_less by simp

text \<open>
  The gate of the log: with transmissions that succeed, step \<open>k\<close> logs one line, the hue
  and the three bytes of its frame, when the hue before the step is a multiple of 10, and
  nothing otherwise.
\<close>

lemma step_log:
  assumes ok: "list_all succeeds txs" and k: "k < length txs"
  shows "log_after txs c out (Suc k) =
    (if uint (current_hue (controller_after txs c out k)) mod 10 = 0
     then log_after txs c out k @
       [Hue_GRB (current_hue (controller_after txs c out k))
          (grb_data (controller_after txs c out (Suc k)) ! 0)
          (grb_data (controller_after txs c out (Suc k)) ! 1)
          (grb_data (controller_after txs c out (Suc k)) ! 2)]
     else log_after txs c out k)"
proof -
  define ck where "ck = controller_after txs c out k"
  define lk where "lk = log_after txs c out k"
  have run: "app_loop (take k txs) c out = (Inr (), ck, lk)"
    unfolding ck_def lk_def controller_after_def log_after_def
    by (rule app_loop_run) (rule all_succeed_take [OF ok])
  have t: "take (Suc k) txs = take k txs @ [txs ! k]"
    using k by (rule take_Suc_conv_app_nth)
  have s: "app_loop (take (Suc k) txs) c out = update_led_color (txs ! k) ck lk"
    by (simp add: t app_loop_snoc run)
  obtain grb where grb: "hsv_to_grb (current_hue ck) 100 100 = Some grb"
    using hsv_full_defined by blast
  from ok k have "succeeds (txs ! k)" by (simp add: list_all_length)
  then have "(txs ! k) (channel ck) (encoder ck) grb (length grb) 0 = ESP_OK"
    by (simp add: succeeds_def)
  with grb have "update_led_color (txs ! k) ck lk =
      (Inr (), ck\<lparr>grb_data := grb, current_hue := next_hue (current_hue ck)\<rparr>,
       if uint (current_hue ck) mod 10 = 0
       then lk @ [Hue_GRB (current_hue ck) (grb ! 0) (grb ! 1) (grb ! 2)] else lk)"
    by (simp add: update_led_color_eq)
  with s have cs: "grb_data (controller_after txs c out (Suc k)) = grb"
    and ls: "log_after txs c out (Suc k) =
      (if uint (current_hue ck) mod 10 = 0
       then lk @ [Hue_GRB (current_hue ck) (grb ! 0) (grb ! 1) (grb ! 2)] else lk)"
    by (simp_all add: controller_after_def log_after_def)
  show ?thesis
    unfolding ck_def [symmetric] lk_def [symmetric] cs ls by (rule refl)
qed

lemma records_in_cycle:
  "length (filter (\<lambda>k. 2 * int k mod 360 mod 10 = 0) [0..<180]) = 36"
  by code_simp

text \<open>
  The program as a whole: once the set-up has returned a controller, \<^verbatim>\<open>app_main\<close> is
  the loop from that controller, after the start-up line.
\<close>

lemma app_main_loop:
  assumes "initialize_led_controller drv = Inr c0"
  shows "app_main drv txs =
    (fst (app_loop txs c0 [Starting_Rainbow_Demo]),
     Some (fst (snd (app_loop txs c0 [Starting_Rainbow_Demo]))),
     snd (snd (app_loop txs c0 [Starting_Rainbow_Demo])))"
  using assms by (simp add: app_main_def ESP_LOGI_def split: prod.splits)


section \<open>The claims about the animation\<close>

text \<open>
  Claim C3. From the controller the set-up returns, whose hue is 0, a loop of \<open>N\<close> steps
  whose transmissions all succeed runs to its end, and after \<open>N\<close> steps that succeeded
  the hue is \<open>2 * N mod 360\<close>.
\<close>

theorem hue_after_n_steps:
  assumes "initialize_led_controller drv = Inr c0"
  shows "(list_all succeeds txs \<longrightarrow> fst (app_loop txs c0 out) = Inr ()) \<and>
    (fst (app_loop txs c0 out) = Inr () \<longrightarrow>
       uint (current_hue (fst (snd (app_loop txs c0 out)))) = 2 * int (length txs) mod 360)"
proof (intro conjI impI)
  assume "list_all succeeds txs"
  then show "fst (app_loop txs c0 out) = Inr ()" by (rule app_loop_succeeds)
next
  assume "fst (app_loop txs c0 out) = Inr ()"
  then have "app_loop txs c0 out =
      (Inr (), fst (snd (app_loop txs c0 out)), snd (snd (app_loop txs c0 out)))"
    by (cases "app_loop txs c0 out") simp
  then have "current_hue (fst (snd (app_loop txs c0 out))) = (next_hue ^^ length txs) (current_hue c0)"
    by (rule app_loop_hue)
  also have "current_hue c0 = 0" using assms by (rule init_hue)
  finally show "uint (current_hue (fst (snd (app_loop txs c0 out)))) = 2 * int (length txs) mod 360"
    using next_hue_funpow [of 0 "length txs"] by simp
qed

text \<open>
  After 200 steps with a transmission that succeeds the hue is 40.
\<close>

theorem hue_after_n_steps_witness:
  "fst (app_loop (replicate 200 transmit_ok) controller0 []) = Inr () \<and>
   uint (current_hue (fst (snd (app_loop (replicate 200 transmit_ok) controller0 [])))) = 40"
  using hue_after_n_steps [OF init_driver_ok, of "replicate 200 transmit_ok" "[]"]
    all_succeed_replicate [of 200]
  by simp

lemma app_loop_log_from_0:
  assumes "current_hue c = 0" and "fst (app_loop txs c out) = Inr ()"
  shows "length (snd (snd (app_loop txs c out))) =
    length out + length (filter (\<lambda>k. 2 * int k mod 360 mod 10 = 0) [0..<length txs])"
proof -
  have "uint ((next_hue ^^ k) (current_hue c)) = 2 * int k mod 360" for k
    using next_hue_funpow [of "current_hue c" k] by (simp add: assms(1))
  then have f: "filter (\<lambda>k. uint ((next_hue ^^ k) (current_hue c)) mod 10 = 0) [0..<length txs] =
      filter (\<lambda>k. 2 * int k mod 360 mod 10 = 0) [0..<length txs]"
    by simp
  from assms(2) have "app_loop txs c out =
      (Inr (), fst (snd (app_loop txs c out)), snd (snd (app_loop txs c out)))"
    by (cases "app_loop txs c out") simp
  then have "length (snd (snd (app_loop txs c out))) = length out +
      length (filter (\<lambda>k. uint ((next_hue ^^ k) (current_hue c)) mod 10 = 0) [0..<length txs])"
    by (rule app_loop_log)
  then show ?thesis by (simp only: f)
qed

lemma records_in_10_steps:
  "length (filter (\<lambda>k. 2 * int k mod 360 mod 10 = 0) [0..<10]) = 2"
  by code_simp

text \<open>
  Claim C4. With a driver and transmissions that succeed, the loop from the controller of
  the set-up logs 2 lines in its first 10 steps and 36 lines in the 180 steps of the
  cycle: the test \<^verbatim>\<open>current_hue % 10 == 0\<close> passes every 5 steps, since a step adds 2
  to the hue. The claim, as the comments of the source do, has one line every 10 steps,
  18 in the cycle.
\<close>

theorem cycle_logs_36_records:
  "initialize_led_controller driver_ok = Inr controller0 \<and>
   length (log_after (replicate 180 transmit_ok) controller0 [] 10) = 2 \<and>
   length (log_after (replicate 180 transmit_ok) controller0 [] 180) = 36 \<and>
   length (log_after (replicate 180 transmit_ok) controller0 [] 180) \<noteq> 18"
proof -
  have h: "current_hue controller0 = 0" by (simp add: controller0_def)
  have r: "fst (app_loop (replicate n transmit_ok) controller0 []) = Inr ()" for n
    by (rule app_loop_succeeds) (rule all_succeed_replicate)
  have "length (log_after (replicate 180 transmit_ok) controller0 [] 10) = 2"
    using app_loop_log_from_0 [OF h r [of 10]] by (simp add: log_after_def records_in_10_steps)
  moreover have "length (log_after (replicate 180 transmit_ok) controller0 [] 180) = 36"
    using app_loop_log_from_0 [OF h r [of 180]] by (simp add: log_after_def records_in_cycle)
  ultimately show ?thesis using init_driver_ok by simp
qed


text \<open>
  Claim C5. When the transmission of a step returns an error code, the step ends with
  that code as its fault, after the frame was stored and before anything is logged: the
  hue is the one before the step, and the loop stops there, whatever transmissions would
  follow.
\<close>

theorem transmit_failure_is_fatal:
  assumes "hsv_to_grb (current_hue c) 100 100 = Some grb"
    and "tx (channel c) (encoder c) grb (length grb) 0 = rc"
    and "rc \<noteq> ESP_OK"
  shows "update_led_color tx c out = (Inl (Abort rc), c\<lparr>grb_data := grb\<rparr>, out) \<and>
    current_hue (fst (snd (update_led_color tx c out))) = current_hue c \<and>
    app_loop (tx # txs) c out = (Inl (Abort rc), c\<lparr>grb_data := grb\<rparr>, out)"
  using assms by (simp add: update_led_color_eq)

text \<open>
  A transmission that returns the code 259 at hue 0: the step and the loop end with the
  fault 259, the hue still 0, and the next transmission is never made.
\<close>

theorem transmit_failure_is_fatal_witness:
  "update_led_color transmit_fail controller0 [] =
     (Inl (Abort 259), controller0\<lparr>grb_data := [0, 255, 0]\<rparr>, []) \<and>
   current_hue (fst (snd (update_led_color transmit_fail controller0 []))) = current_hue controller0 \<and>
   app_loop [transmit_fail, transmit_ok] controller0 [] =
     (Inl (Abort 259), controller0\<lparr>grb_data := [0, 255, 0]\<rparr>, [])"
proof -
  have a: "hsv_to_grb (current_hue controller0) 100 100 = Some [0, 255, 0]"
    by (simp add: controller0_def hsv_at_0)
  have b: "transmit_fail (channel controller0) (encoder controller0) [0, 255, 0]
      (length [0, 255, 0 :: 8 word]) 0 = 259"
    by (simp add: transmit_fail_def)
  have c: "(259 :: 32 word) \<noteq> ESP_OK" by (simp add: ESP_OK_def)
  from transmit_failure_is_fatal [where c = controller0 and tx = transmit_fail
      and grb = "[0, 255, 0]" and rc = 259 and out = "[]" and txs = "[transmit_ok]", OF a b c]
  show ?thesis .
qed

text \<open>
  Claim C6. The set-up returns a controller of hue 0; a step from a hue below 360 leaves
  a hue below 360, whether it succeeds or stops; so every controller the program reaches
  has its hue below 360. The hue is unsigned, so it is never negative.
\<close>

theorem hue_invariant:
  "(initialize_led_controller drv = Inr c0 \<longrightarrow> current_hue c0 = 0) \<and>
   (current_hue c < 360 \<and> update_led_color tx c out = (res, c', out') \<longrightarrow> current_hue c' < 360) \<and>
   (reachable r \<longrightarrow> current_hue r < 360)"
proof (intro conjI impI)
  assume "initialize_led_controller drv = Inr c0"
  then show "current_hue c0 = 0" by (rule init_hue)
next
  assume "current_hue c < 360 \<and> update_led_color tx c out = (res, c', out')"
  then show "current_hue c' < 360" using update_led_color_bound by blast
next
  assume "reachable r"
  then show "current_hue r < 360"
  proof (induction rule: reachable.induct)
    case (reachable_init drv controller)
    then have "current_hue controller = 0" by (rule init_hue)
    then show ?case by simp
  next
    case (reachable_step controller tx out res controller' out')
    then show ?case using update_led_color_bound by blast
  qed
qed

text \<open>
  The controller of a driver that succeeds, and the controller after its first step.
\<close>

theorem hue_invariant_witness:
  "initialize_led_controller driver_ok = Inr controller0 \<and> current_hue controller0 = 0 \<and>
   reachable (fst (snd (update_led_color transmit_ok controller0 []))) \<and>
   current_hue (fst (snd (update_led_color transmit_ok controller0 []))) < 360"
proof -
  let ?u = "update_led_color transmit_ok controller0 []"
  have u: "?u = (fst ?u, fst (snd ?u), snd (snd ?u))" by simp
  have r0: "reachable controller0" using init_driver_ok by (rule reachable_init)
  then have r1: "reachable (fst (snd ?u))" using u by (rule reachable_step)
  from hue_invariant [where drv = driver_ok and ?c0.0 = controller0 and r = "fst (snd ?u)"
      and c = controller0 and tx = transmit_ok and out = "[]"]
    init_driver_ok r1
  show ?thesis by simp
qed

text \<open>
  Claim C7. From every hue below 360 the hue update applied 180 times gives the hue back,
  and applied a smaller positive number of times it gives another hue.
\<close>

theorem hue_cycle_period:
  assumes "h < 360"
  shows "(next_hue ^^ 180) h = h \<and> (\<forall>n. 0 < n \<and> n < 180 \<longrightarrow> (next_hue ^^ n) h \<noteq> h)"
proof -
  from assms have b: "uint h < 360" by (simp add: word_less_alt)
  have "uint ((next_hue ^^ 180) h) = uint h"
    using next_hue_funpow [OF b, of 180] b by simp
  then have p: "(next_hue ^^ 180) h = h" by (simp add: word_uint_eq_iff)
  have "(next_hue ^^ n) h \<noteq> h" if n: "0 < n" "n < 180" for n
  proof
    assume "(next_hue ^^ n) h = h"
    then have "(uint h + 2 * int n) mod 360 = uint h"
      using next_hue_funpow [OF b, of n] by simp
    moreover have "0 \<le> uint h" by simp
    ultimately show False using b n by presburger
  qed
  with p show ?thesis by blast
qed

text \<open>
  From hue 358, where the update wraps around at once: 180 updates give 358 again, 90 and
  179 do not.
\<close>

theorem hue_cycle_period_witness:
  "(next_hue ^^ 180) 358 = 358 \<and> (next_hue ^^ 90) 358 \<noteq> 358 \<and> (next_hue ^^ 179) 358 \<noteq> 358"
proof -
  have "(358 :: 16 word) < 360" by simp
  from hue_cycle_period [OF this] show ?thesis by simp
qed

end
